theory Spec2Isabelle
  imports Main "HOL-Library.Word"
begin

section \<open>Data model of the sound player (src/listener/player.py)\<close>

type_synonym path = string

text \<open>
  The value stored per path, as line 49 builds it:
  \<^verbatim>\<open>(audio_data, channels, sample_width, framerate)\<close>.
\<close>

type_synonym pcm = "8 word list \<times> int \<times> int \<times> int"

text \<open>
  What the file system holds under a path, as far as \<^verbatim>\<open>load_sound\<close> can tell:
  \<^verbatim>\<open>os.path.exists\<close> is false (\<open>Absent\<close>); the path exists but \<^verbatim>\<open>wave.open\<close> or one of
  the reads raises (\<open>Unreadable\<close>); or the four reads succeed (\<open>Wave\<close>).
\<close>

datatype file_state = Absent | Unreadable | Wave pcm

type_synonym filesystem = "path \<Rightarrow> file_state"

text \<open>The exceptions the modelled code can raise.\<close>

datatype exn =
    WaveError
  | KeyError path
  | ValueError path
  | DeviceError
  | CallbackError string

text \<open>
  Which call of the playback block (lines 69 to 81) raises, if any. The audio device is an
  external collaborator, so its behaviour is a parameter of \<open>play\<close>.
\<close>

datatype device = NoFault | FormatFault | OpenFault | WriteFault | StopFault | CloseFault

text \<open>
  The effects a call performs besides its result, in program order: file-system accesses,
  lock operations, the individual mutations of the dictionary and of the key list,
  diagnostics, and calls on the audio device.
\<close>

datatype event =
    FsExists path
  | WaveOpen path
  | LockAcquire
  | LockRelease
  | KeysRemove path
  | KeysAppend path
  | KeysPop path
  | KeysClear
  | CacheDel path
  | CacheSet path
  | CacheClear
  | PrintFileNotFound path
  | PrintLoadError exn
  | PrintPlayError exn
  | PrintLine string
  | PaOpen int int int
  | StreamWrite "8 word list"
  | StreamStop
  | StreamClose
  | PaTerminate bool

record player =
  cache :: "path \<rightharpoonup> pcm"
  cache_keys :: "path list"
  cache_size :: int

text \<open>\<^verbatim>\<open>TinyPlayer.__init__\<close> (lines 11 to 16).\<close>

definition TinyPlayer :: "int \<Rightarrow> player" where
  "TinyPlayer n = \<lparr>cache = Map.empty, cache_keys = [], cache_size = n\<rparr>"

section \<open>Operations of the player\<close>

text \<open>
  \<^verbatim>\<open>TinyPlayer.load_sound\<close> (lines 18 to 55). The branches follow the source:
  \<^item> line 20: the existence check comes first and returns \<^verbatim>\<open>False\<close>;
  \<^item> lines 25 to 29: the cache hit; \<^verbatim>\<open>list.remove\<close> deletes the first occurrence and raises
    \<^verbatim>\<open>ValueError\<close> outside the \<^verbatim>\<open>try\<close> when the path is not in the list;
  \<^item> lines 32 to 39: reading the file; any exception is caught at line 53;
  \<^item> lines 42 to 50: under the lock, \<^verbatim>\<open>pop(0)\<close> and \<^verbatim>\<open>del\<close> when the list is full and not
    empty, then the insertion; a \<^verbatim>\<open>KeyError\<close> of \<^verbatim>\<open>del\<close> leaves the \<^verbatim>\<open>with\<close> block (releasing
    the lock) and is caught at line 53, after the key was popped.
\<close>

definition load_sound ::
  "filesystem \<Rightarrow> path \<Rightarrow> player \<Rightarrow> (exn + bool) \<times> player \<times> event list" where
  "load_sound fs filepath s =
    (if fs filepath = Absent then
       (Inr False, s, [FsExists filepath, PrintFileNotFound filepath])
     else if cache s filepath \<noteq> None then
       (if filepath \<in> set (cache_keys s) then
          (Inr True,
           s\<lparr>cache_keys := remove1 filepath (cache_keys s) @ [filepath]\<rparr>,
           [FsExists filepath, KeysRemove filepath, KeysAppend filepath])
        else (Inl (ValueError filepath), s, [FsExists filepath]))
     else
       (case fs filepath of
          Wave d \<Rightarrow>
            (if cache_size s \<le> int (length (cache_keys s)) \<and> cache_keys s \<noteq> [] then
               (let oldest = hd (cache_keys s);
                    s1 = s\<lparr>cache_keys := tl (cache_keys s)\<rparr>
                in if cache s1 oldest = None then
                     (Inr False, s1,
                      [FsExists filepath, WaveOpen filepath, LockAcquire, KeysPop oldest,
                       LockRelease, PrintLoadError (KeyError oldest)])
                   else
                     (Inr True,
                      s1\<lparr>cache := ((cache s1)(oldest := None))(filepath \<mapsto> d),
                         cache_keys := cache_keys s1 @ [filepath]\<rparr>,
                      [FsExists filepath, WaveOpen filepath, LockAcquire, KeysPop oldest,
                       CacheDel oldest, CacheSet filepath, KeysAppend filepath, LockRelease]))
             else
               (Inr True,
                s\<lparr>cache := (cache s)(filepath \<mapsto> d),
                  cache_keys := cache_keys s @ [filepath]\<rparr>,
                [FsExists filepath, WaveOpen filepath, LockAcquire, CacheSet filepath,
                 KeysAppend filepath, LockRelease]))
        | _ \<Rightarrow>
            (Inr False, s,
             [FsExists filepath, WaveOpen filepath, PrintLoadError WaveError])))"

text \<open>
  The playback block of \<^verbatim>\<open>play\<close> (lines 68 to 83): the calls made on the device up to the
  one that raises; the exception is printed and swallowed.
\<close>

definition playback :: "device \<Rightarrow> pcm \<Rightarrow> event list" where
  "playback dev entry =
    (case entry of (data, channels, width, rate) \<Rightarrow>
      (case dev of
         FormatFault \<Rightarrow> [PrintPlayError DeviceError]
       | OpenFault \<Rightarrow> [PaOpen channels width rate, PrintPlayError DeviceError]
       | WriteFault \<Rightarrow>
           [PaOpen channels width rate, StreamWrite data, PrintPlayError DeviceError]
       | StopFault \<Rightarrow>
           [PaOpen channels width rate, StreamWrite data, StreamStop,
            PrintPlayError DeviceError]
       | CloseFault \<Rightarrow>
           [PaOpen channels width rate, StreamWrite data, StreamStop, StreamClose,
            PrintPlayError DeviceError]
       | NoFault \<Rightarrow>
           [PaOpen channels width rate, StreamWrite data, StreamStop, StreamClose]))"

text \<open>
  \<^verbatim>\<open>TinyPlayer.play\<close> (lines 57 to 83). Line 62 calls \<^verbatim>\<open>load_sound\<close> only when the path is
  not in the dictionary; line 65 is a dictionary lookup outside the \<^verbatim>\<open>try\<close>.
\<close>

definition play ::
  "filesystem \<Rightarrow> device \<Rightarrow> path \<Rightarrow> player \<Rightarrow> (exn + unit) \<times> player \<times> event list" where
  "play fs dev filepath s =
    (case (if cache s filepath \<noteq> None then (Inr True, s, [])
           else load_sound fs filepath s) of
       (Inl e, s1, evs) \<Rightarrow> (Inl e, s1, evs)
     | (Inr False, s1, evs) \<Rightarrow> (Inr (), s1, evs)
     | (Inr True, s1, evs) \<Rightarrow>
         (case cache s1 filepath of
            None \<Rightarrow> (Inl (KeyError filepath), s1, evs)
          | Some entry \<Rightarrow> (Inr (), s1, evs @ playback dev entry)))"

text \<open>
  \<^verbatim>\<open>TinyPlayer.cleanup\<close> (lines 96 to 103). The flag says whether \<^verbatim>\<open>pa.terminate()\<close> raises;
  the bare \<^verbatim>\<open>except\<close> swallows it.
\<close>

definition cleanup :: "bool \<Rightarrow> player \<Rightarrow> (exn + unit) \<times> player \<times> event list" where
  "cleanup terminate_raises s =
    (Inr (), s\<lparr>cache := Map.empty, cache_keys := []\<rparr>,
     [CacheClear, KeysClear, PaTerminate terminate_raises])"

text \<open>The three components of what a call yields.\<close>

definition result_of :: "'r \<times> player \<times> event list \<Rightarrow> 'r" where
  "result_of r = fst r"

definition state_of :: "'r \<times> player \<times> event list \<Rightarrow> player" where
  "state_of r = fst (snd r)"

definition events_of :: "'r \<times> player \<times> event list \<Rightarrow> event list" where
  "events_of r = snd (snd r)"

section \<open>The listener (src/listener/main.py)\<close>

text \<open>
  A key as the capture facility delivers it: a character key has the attribute
  \<^verbatim>\<open>char\<close> (possibly \<^verbatim>\<open>None\<close>), a special key has none and is shown by \<^verbatim>\<open>str(key)\<close>.
\<close>

datatype key = KeyCode "string option" | SpecialKey string

fun key_char :: "key \<Rightarrow> string" where
  "key_char (KeyCode (Some c)) = c"
| "key_char (KeyCode None) = ''None''"
| "key_char (SpecialKey n) = ''Key.'' @ n"

text \<open>
  A callback takes the key and the event type; it acts on a world \<open>'w\<close> of its own and
  either returns or raises.
\<close>

type_synonym 'w callback = "key \<Rightarrow> string \<Rightarrow> 'w \<Rightarrow> (exn + unit) \<times> 'w"

record 'w listener =
  running :: bool
  callbacks :: "'w callback list"
  logger :: "string option"
  logged :: "string list"

text \<open>
  \<^verbatim>\<open>BackgroundKeyboardListener.__init__\<close> (lines 12 to 28); \<^verbatim>\<open>if log_file\<close> is false
  for \<^verbatim>\<open>None\<close> and for the empty string.
\<close>

definition BackgroundKeyboardListener :: "string option \<Rightarrow> 'w listener" where
  "BackgroundKeyboardListener log_file =
    \<lparr>running = False, callbacks = [],
     logger = (case log_file of None \<Rightarrow> None | Some f \<Rightarrow> if f = [] then None else Some f),
     logged = []\<rparr>"

text \<open>\<^verbatim>\<open>add_callback\<close> (line 38).\<close>

definition add_callback :: "'w listener \<Rightarrow> 'w callback \<Rightarrow> 'w listener" where
  "add_callback l callback = l\<lparr>callbacks := callbacks l @ [callback]\<rparr>"

text \<open>
  The loop of lines 51 and 52: \<^verbatim>\<open>for callback in self.callbacks: callback(key, 'press')\<close>.
  There is no \<^verbatim>\<open>try\<close> around the call, so the first exception leaves the loop.
\<close>

fun invoke_all :: "'w callback list \<Rightarrow> key \<Rightarrow> string \<Rightarrow> 'w \<Rightarrow> (exn + unit) \<times> 'w" where
  "invoke_all [] k ev w = (Inr (), w)"
| "invoke_all (callback # rest) k ev w =
     (case callback k ev w of
        (Inl e, w') \<Rightarrow> (Inl e, w')
      | (Inr _, w') \<Rightarrow> invoke_all rest k ev w')"

text \<open>\<^verbatim>\<open>_on_press\<close> (lines 40 to 52).\<close>

definition on_press :: "'w listener \<Rightarrow> key \<Rightarrow> 'w \<Rightarrow> (exn + unit) \<times> 'w listener \<times> 'w" where
  "on_press l k w =
    (let l1 = (case logger l of
                 None \<Rightarrow> l
               | Some _ \<Rightarrow> l\<lparr>logged := logged l @ [''Key pressed: '' @ key_char k]\<rparr>)
     in case invoke_all (callbacks l1) k ''press'' w of (r, w') \<Rightarrow> (r, l1, w'))"

text \<open>
  The entry point (lines 103 to 116), up to the moment the listener is started. The sound
  path is computed from the module's location, so it is a parameter. \<open>Listening\<close> stands for
  control reaching \<^verbatim>\<open>listener.start()\<close> at line 113; \<^verbatim>\<open>exit()\<close> without an argument
  raises \<^verbatim>\<open>SystemExit(None)\<close>, which ends the process with status 0.
\<close>

datatype process = Exited int | Crashed exn | Listening

definition main_entry :: "filesystem \<Rightarrow> path \<Rightarrow> process \<times> event list" where
  "main_entry fs sound_path =
    (case load_sound fs sound_path (TinyPlayer 100) of
       (Inl e, s, evs) \<Rightarrow> (Crashed e, evs)
     | (Inr True, s, evs) \<Rightarrow> (Listening, evs @ [PrintLine ''Sound loaded successfully''])
     | (Inr False, s, evs) \<Rightarrow> (Exited 0, evs @ [PrintLine ''Failed to load sound'']))"

section \<open>Notions used to state the properties\<close>

text \<open>The path exists and can be read as a wave file.\<close>

fun readable :: "file_state \<Rightarrow> bool" where
  "readable (Wave d) = True"
| "readable _ = False"

text \<open>The invariant relating the dictionary and the key list.\<close>

definition cache_inv :: "player \<Rightarrow> bool" where
  "cache_inv s = (dom (cache s) = set (cache_keys s) \<and> distinct (cache_keys s))"

text \<open>Sequences of \<^verbatim>\<open>load_sound\<close> calls, each with the file system as it is at that call.\<close>

type_synonym call = "filesystem \<times> path"

definition load_step :: "player \<Rightarrow> call \<Rightarrow> player" where
  "load_step s c = state_of (load_sound (fst c) (snd c) s)"

definition run_loads :: "player \<Rightarrow> call list \<Rightarrow> player" where
  "run_loads s cs = foldl load_step s cs"

text \<open>
  Recency as the caller sees it, independent of what \<^verbatim>\<open>load_sound\<close> does or returns:
  \<open>last_request cs p\<close> is the position, counted from 1, of the last call of \<open>cs\<close> made on
  the path \<open>p\<close>, and 0 when there is none.
\<close>

definition last_request :: "call list \<Rightarrow> path \<Rightarrow> nat" where
  "last_request cs p = length cs - length (takeWhile (\<lambda>c. snd c \<noteq> p) (rev cs))"

text \<open>
  Every call of the sequence that is made on a path cached at that moment finds the file
  of that path still existing.
\<close>

fun cached_files_exist :: "player \<Rightarrow> call list \<Rightarrow> bool" where
  "cached_files_exist s [] = True"
| "cached_files_exist s (c # cs) =
     ((cache s (snd c) = None \<or> fst c (snd c) \<noteq> Absent) \<and>
      cached_files_exist (load_step s c) cs)"

text \<open>
  The invariant behind the LRU law: the key list is ordered by the stamps \<open>st\<close>, no
  stamp lies in the future, and the list is within the capacity.
\<close>

definition lru_inv :: "player \<Rightarrow> nat \<Rightarrow> (path \<Rightarrow> nat) \<Rightarrow> bool" where
  "lru_inv s t st =
    (cache_inv s \<and> sorted_wrt (\<lambda>a b. st a < st b) (cache_keys s) \<and>
     (\<forall>k \<in> set (cache_keys s). st k \<le> t) \<and>
     1 \<le> cache_size s \<and> int (length (cache_keys s)) \<le> cache_size s)"

text \<open>Classes of events.\<close>

fun is_file_read :: "event \<Rightarrow> bool" where
  "is_file_read (WaveOpen p) = True"
| "is_file_read _ = False"

fun is_device :: "event \<Rightarrow> bool" where
  "is_device (PaOpen c w r) = True"
| "is_device (StreamWrite d) = True"
| "is_device StreamStop = True"
| "is_device StreamClose = True"
| "is_device (PaTerminate b) = True"
| "is_device _ = False"

fun is_mutation :: "event \<Rightarrow> bool" where
  "is_mutation (KeysRemove p) = True"
| "is_mutation (KeysAppend p) = True"
| "is_mutation (KeysPop p) = True"
| "is_mutation KeysClear = True"
| "is_mutation (CacheDel p) = True"
| "is_mutation (CacheSet p) = True"
| "is_mutation CacheClear = True"
| "is_mutation _ = False"

text \<open>
  The lock discipline on a trace, given whether the lock is held at its start: every
  mutation happens while the lock is held, the lock is not taken twice, and it is
  released at the end.
\<close>

fun lock_guarded :: "bool \<Rightarrow> event list \<Rightarrow> bool" where
  "lock_guarded held [] = (\<not> held)"
| "lock_guarded held (LockAcquire # es) = (\<not> held \<and> lock_guarded True es)"
| "lock_guarded held (LockRelease # es) = (held \<and> lock_guarded False es)"
| "lock_guarded held (e # es) = ((if is_mutation e then held else True) \<and> lock_guarded held es)"

text \<open>
  Fixtures: a file system with three wave files and a damaged one, a file system with no
  file at all, and callbacks that record their name.
\<close>

definition demo_fs :: filesystem where
  "demo_fs p =
    (if p \<in> set [''a.wav'', ''b.wav'', ''c.wav''] then Wave ([], 1, 2, 44100)
     else if p = ''bad.wav'' then Unreadable
     else Absent)"

definition empty_fs :: filesystem where
  "empty_fs p = Absent"

definition note_callback :: "string \<Rightarrow> bool \<Rightarrow> (string list) callback" where
  "note_callback name raises k ev w =
    (if raises then Inl (CallbackError name) else Inr (), w @ [name])"

section \<open>Case analysis of load_sound under the invariant\<close>

lemma load_sound_cases [consumes 1, case_names fail hit insert evict]:
  assumes inv: "cache_inv s"
  obtains
    (fail) "result_of (load_sound fs p s) = Inr False" "state_of (load_sound fs p s) = s"
  | (hit) "cache s p \<noteq> None" "p \<in> set (cache_keys s)" "fs p \<noteq> Absent"
      "result_of (load_sound fs p s) = Inr True"
      "state_of (load_sound fs p s) = s\<lparr>cache_keys := remove1 p (cache_keys s) @ [p]\<rparr>"
  | (insert) d where "cache s p = None" "p \<notin> set (cache_keys s)" "fs p = Wave d"
      "\<not> (cache_size s \<le> int (length (cache_keys s)) \<and> cache_keys s \<noteq> [])"
      "result_of (load_sound fs p s) = Inr True"
      "state_of (load_sound fs p s) =
         s\<lparr>cache := (cache s)(p \<mapsto> d), cache_keys := cache_keys s @ [p]\<rparr>"
  | (evict) d k ks where "cache s p = None" "p \<notin> set (cache_keys s)" "fs p = Wave d"
      "cache_size s \<le> int (length (cache_keys s))" "cache_keys s = k # ks"
      "result_of (load_sound fs p s) = Inr True"
      "state_of (load_sound fs p s) =
         s\<lparr>cache := ((cache s)(k := None))(p \<mapsto> d), cache_keys := ks @ [p]\<rparr>"
proof (cases "fs p")
  case Absent
  then show ?thesis
    by (intro fail) (simp_all add: load_sound_def result_of_def state_of_def)
next
  case Unreadable
  show ?thesis
  proof (cases "cache s p")
    case None
    with Unreadable show ?thesis
      by (intro fail) (simp_all add: load_sound_def result_of_def state_of_def)
  next
    case (Some e)
    then have "p \<in> set (cache_keys s)" using inv by (auto simp: cache_inv_def)
    with Some Unreadable show ?thesis
      by (intro hit) (simp_all add: load_sound_def result_of_def state_of_def)
  qed
next
  case (Wave d)
  show ?thesis
  proof (cases "cache s p")
    case (Some e)
    then have "p \<in> set (cache_keys s)" using inv by (auto simp: cache_inv_def)
    with Some Wave show ?thesis
      by (intro hit) (simp_all add: load_sound_def result_of_def state_of_def)
  next
    case None
    then have notin: "p \<notin> set (cache_keys s)" using inv by (auto simp: cache_inv_def)
    show ?thesis
    proof (cases "cache_keys s")
      case Nil
      with None Wave notin show ?thesis
        by (intro insert[of d]) (simp_all add: load_sound_def result_of_def state_of_def)
    next
      case (Cons k ks)
      then have "k \<in> dom (cache s)" using inv by (simp add: cache_inv_def)
      then have k: "cache s k \<noteq> None" by blast
      show ?thesis
      proof (cases "cache_size s \<le> int (length (cache_keys s))")
        case False
        with None Wave notin show ?thesis
          by (intro insert[of d]) (simp_all add: load_sound_def result_of_def state_of_def)
      next
        case True
        with None Wave notin Cons k show ?thesis
          by (intro evict[of d k ks])
            (auto simp: load_sound_def result_of_def state_of_def Let_def)
      qed
    qed
  qed
qed

lemma load_sound_inv:
  assumes inv: "cache_inv s"
  shows "cache_inv (state_of (load_sound fs p s))"
  using inv
proof (cases rule: load_sound_cases[of s fs p])
  case fail with inv show ?thesis by simp
next
  case hit with inv show ?thesis by (auto simp: cache_inv_def)
next
  case (insert d) with inv show ?thesis by (auto simp: cache_inv_def)
next
  case (evict d k ks) with inv show ?thesis by (auto simp: cache_inv_def)
qed

lemma load_sound_hit_state:
  assumes "cache_inv s" "cache s p \<noteq> None" "fs p \<noteq> Absent"
  shows "result_of (load_sound fs p s) = Inr True \<and>
         state_of (load_sound fs p s) = s\<lparr>cache_keys := remove1 p (cache_keys s) @ [p]\<rparr>"
proof -
  from assms(1,2) have "p \<in> set (cache_keys s)" by (auto simp: cache_inv_def)
  with assms(2,3) show ?thesis by (simp add: load_sound_def result_of_def state_of_def)
qed

lemma lru_inv_step:
  assumes J: "lru_inv s t st"
    and ex: "cache s p = None \<or> fs p \<noteq> Absent"
  shows "lru_inv (load_step s (fs, p)) (Suc t) (st(p := Suc t))"
proof -
  from J have inv: "cache_inv s" by (simp add: lru_inv_def)
  from J have srt: "sorted_wrt (\<lambda>a b. st a < st b) (cache_keys s)" by (simp add: lru_inv_def)
  from J have bnd: "\<forall>k \<in> set (cache_keys s). st k \<le> t" by (simp add: lru_inv_def)
  from J have cap: "1 \<le> cache_size s" "int (length (cache_keys s)) \<le> cache_size s"
    by (simp_all add: lru_inv_def)
  from inv have dist: "distinct (cache_keys s)" by (simp add: cache_inv_def)
  from inv have dom: "dom (cache s) = set (cache_keys s)" by (simp add: cache_inv_def)
  let ?st = "st(p := Suc t)"
  have mono: "sorted_wrt (\<lambda>a b. ?st a < ?st b) xs"
    if "sorted_wrt (\<lambda>a b. st a < st b) xs" "p \<notin> set xs" for xs
    using that by (induction xs) auto
  have inv': "cache_inv (state_of (load_sound fs p s))" by (rule load_sound_inv[OF inv])
  from inv show ?thesis
  proof (cases rule: load_sound_cases[of s fs p])
    case fail
    have "cache s p = None"
    proof (rule ccontr)
      assume c: "cache s p \<noteq> None"
      with ex have "fs p \<noteq> Absent" by simp
      from load_sound_hit_state[where s = s and p = p and fs = fs, OF inv c this] fail(1)
      show False by simp
    qed
    with dom have notin: "p \<notin> set (cache_keys s)" by auto
    have "sorted_wrt (\<lambda>a b. ?st a < ?st b) (cache_keys s)" by (rule mono[OF srt notin])
    moreover have "\<forall>k \<in> set (cache_keys s). ?st k \<le> Suc t" using bnd by auto
    ultimately show ?thesis
      using fail inv cap by (simp add: load_step_def lru_inv_def)
  next
    case hit
    have r: "remove1 p (cache_keys s) = filter (\<lambda>x. p \<noteq> x) (cache_keys s)"
      using dist by (simp add: distinct_remove1_removeAll removeAll_filter_not_eq)
    have "sorted_wrt (\<lambda>a b. st a < st b) (remove1 p (cache_keys s))"
      unfolding r by (rule sorted_wrt_filter[OF srt])
    then have "sorted_wrt (\<lambda>a b. ?st a < ?st b) (remove1 p (cache_keys s))"
      using dist by (intro mono) auto
    moreover have "\<forall>x \<in> set (remove1 p (cache_keys s)). ?st x < ?st p"
      using bnd dist by (auto simp: less_Suc_eq_le)
    ultimately have "sorted_wrt (\<lambda>a b. ?st a < ?st b) (remove1 p (cache_keys s) @ [p])"
      by (simp add: sorted_wrt_append)
    moreover have "\<forall>k \<in> set (remove1 p (cache_keys s) @ [p]). ?st k \<le> Suc t"
      using bnd dist by auto
    moreover have "length (remove1 p (cache_keys s) @ [p]) = length (cache_keys s)"
      using hit(2) length_pos_if_in_set[OF hit(2)] by (simp add: length_remove1)
    ultimately show ?thesis
      using hit inv' cap by (simp add: load_step_def lru_inv_def)
  next
    case (insert d)
    have "sorted_wrt (\<lambda>a b. ?st a < ?st b) (cache_keys s @ [p])"
      using mono[OF srt insert(2)] bnd insert(2) by (auto simp: sorted_wrt_append less_Suc_eq_le)
    moreover have "\<forall>k \<in> set (cache_keys s @ [p]). ?st k \<le> Suc t"
      using bnd by auto
    moreover have "int (length (cache_keys s @ [p])) \<le> cache_size s"
      using insert(4) cap by (cases "cache_keys s") auto
    ultimately show ?thesis
      using insert inv' cap by (simp add: load_step_def lru_inv_def)
  next
    case (evict d k ks)
    have srt': "sorted_wrt (\<lambda>a b. st a < st b) ks" using srt evict(5) by simp
    have "sorted_wrt (\<lambda>a b. ?st a < ?st b) (ks @ [p])"
      using mono[OF srt'] bnd evict(2,5) by (auto simp: sorted_wrt_append less_Suc_eq_le)
    moreover have "\<forall>k \<in> set (ks @ [p]). ?st k \<le> Suc t"
      using bnd evict(5) by auto
    moreover have "int (length (ks @ [p])) \<le> cache_size s"
      using cap evict(5) by auto
    ultimately show ?thesis
      using evict inv' cap by (simp add: load_step_def lru_inv_def)
  qed
qed

text \<open>The capacity bound needs nothing of the files.\<close>

lemma capacity_step:
  assumes "cache_inv s" "1 \<le> cache_size s" "int (length (cache_keys s)) \<le> cache_size s"
  shows "cache_inv (load_step s c) \<and> 1 \<le> cache_size (load_step s c) \<and>
         int (length (cache_keys (load_step s c))) \<le> cache_size (load_step s c)"
proof -
  obtain fs p where c: "c = (fs, p)" by (cases c)
  have inv': "cache_inv (state_of (load_sound fs p s))" by (rule load_sound_inv[OF assms(1)])
  from assms(1) show ?thesis
  proof (cases rule: load_sound_cases[of s fs p])
    case fail
    with assms show ?thesis by (simp add: c load_step_def)
  next
    case hit
    have "length (remove1 p (cache_keys s) @ [p]) = length (cache_keys s)"
      using hit(2) length_pos_if_in_set[OF hit(2)] by (simp add: length_remove1)
    with hit inv' assms show ?thesis by (simp add: c load_step_def)
  next
    case (insert d)
    have "int (length (cache_keys s @ [p])) \<le> cache_size s"
      using insert(4) assms(2,3) by (cases "cache_keys s") auto
    with insert inv' assms show ?thesis by (simp add: c load_step_def)
  next
    case (evict d k ks)
    have "int (length (ks @ [p])) \<le> cache_size s"
      using assms(3) evict(5) by auto
    with evict inv' assms show ?thesis by (simp add: c load_step_def)
  qed
qed

section \<open>Sequences of loads\<close>

lemmas run_defs = run_loads_def load_step_def state_of_def result_of_def events_of_def
  load_sound_def TinyPlayer_def Let_def

lemma run_loads_snoc: "run_loads s (cs @ [c]) = load_step (run_loads s cs) c"
  by (simp add: run_loads_def)

lemma run_loads_Cons: "run_loads s (c # cs) = run_loads (load_step s c) cs"
  by (simp add: run_loads_def)

lemma cache_size_load_step: "cache_size (load_step s c) = cache_size s"
  by (simp add: load_step_def state_of_def load_sound_def Let_def split: file_state.splits)

lemma cache_size_run_loads: "cache_size (run_loads s cs) = cache_size s"
  by (induction cs arbitrary: s) (simp_all add: run_loads_def cache_size_load_step)

lemma capacity_run:
  assumes "cache_inv s" "1 \<le> cache_size s" "int (length (cache_keys s)) \<le> cache_size s"
  shows "cache_inv (run_loads s cs) \<and>
         int (length (cache_keys (run_loads s cs))) \<le> cache_size s"
  using assms
proof (induction cs arbitrary: s)
  case Nil
  then show ?case by (simp add: run_loads_def)
next
  case (Cons c cs)
  from capacity_step[OF Cons.prems, of c] Cons.IH[of "load_step s c"]
  show ?case by (simp add: run_loads_Cons cache_size_load_step)
qed

lemma last_request_snoc:
  "last_request (cs @ [c]) = (last_request cs)(snd c := Suc (length cs))"
proof
  fix p
  have "length (takeWhile (\<lambda>c. snd c \<noteq> p) (rev cs)) \<le> length cs"
    using length_takeWhile_le[of "\<lambda>c. snd c \<noteq> p" "rev cs"] by simp
  then show "last_request (cs @ [c]) p = ((last_request cs)(snd c := Suc (length cs))) p"
    by (simp add: last_request_def)
qed

lemma cached_files_exist_snoc:
  "cached_files_exist s (cs @ [c]) =
     (cached_files_exist s cs \<and>
      (cache (run_loads s cs) (snd c) = None \<or> fst c (snd c) \<noteq> Absent))"
  by (induction cs arbitrary: s) (auto simp: run_loads_def)

lemma lru_inv_init: "1 \<le> n \<Longrightarrow> lru_inv (TinyPlayer n) 0 (last_request [])"
  by (simp add: lru_inv_def cache_inv_def TinyPlayer_def)

lemma lru_inv_run:
  assumes n: "1 \<le> n"
  shows "cached_files_exist (TinyPlayer n) cs \<Longrightarrow>
         lru_inv (run_loads (TinyPlayer n) cs) (length cs) (last_request cs)"
proof (induction cs rule: rev_induct)
  case Nil
  show ?case using lru_inv_init[OF n] by (simp add: run_loads_def)
next
  case (snoc c cs)
  obtain fs p where c: "c = (fs, p)" by (cases c)
  from snoc.prems have pre: "cached_files_exist (TinyPlayer n) cs"
    and ex: "cache (run_loads (TinyPlayer n) cs) p = None \<or> fs p \<noteq> Absent"
    by (simp_all add: cached_files_exist_snoc c)
  have "lru_inv (load_step (run_loads (TinyPlayer n) cs) (fs, p)) (Suc (length cs))
      ((last_request cs)(p := Suc (length cs)))"
    by (rule lru_inv_step[where s = "run_loads (TinyPlayer n) cs" and p = p and fs = fs,
          OF snoc.IH[OF pre] ex])
  moreover have "last_request (cs @ [c]) = (last_request cs)(p := Suc (length cs))"
    using last_request_snoc[of cs c] by (simp only: c snd_conv)
  ultimately show ?case by (simp only: run_loads_snoc c length_append_singleton)
qed

lemma evicted_is_oldest:
  assumes J: "lru_inv s t st"
    and q: "q \<in> dom (cache s)" "q \<notin> dom (cache (load_step s c))"
    and r: "r \<in> dom (cache s)" "r \<noteq> q"
  shows "st q < st r"
proof -
  obtain fs p where c: "c = (fs, p)" by (cases c)
  from J have inv: "cache_inv s" by (simp add: lru_inv_def)
  from J have srt: "sorted_wrt (\<lambda>a b. st a < st b) (cache_keys s)" by (simp add: lru_inv_def)
  from inv have dom: "dom (cache s) = set (cache_keys s)" by (simp add: cache_inv_def)
  from inv show ?thesis
  proof (cases rule: load_sound_cases[of s fs p])
    case fail
    with q show ?thesis by (simp add: c load_step_def)
  next
    case hit
    with q show ?thesis by (simp add: c load_step_def)
  next
    case (insert d)
    with q show ?thesis by (auto simp: c load_step_def)
  next
    case (evict d k ks)
    with q have "q = k" by (auto simp: c load_step_def split: if_splits)
    with r dom evict(5) have "r \<in> set ks" by auto
    with srt evict(5) \<open>q = k\<close> show ?thesis by auto
  qed
qed

lemma readable_Wave: "readable f \<Longrightarrow> \<exists>d. f = Wave d"
  by (cases f) auto

lemma scenario_abc:
  assumes "fs ''a.wav'' = Wave da" "fs ''b.wav'' = Wave db" "fs ''c.wav'' = Wave dc"
  shows "run_loads (TinyPlayer 2) [(fs, ''a.wav''), (fs, ''b.wav''), (fs, ''c.wav'')] =
    \<lparr>cache = [''b.wav'' \<mapsto> db, ''c.wav'' \<mapsto> dc], cache_keys = [''b.wav'', ''c.wav''],
     cache_size = 2\<rparr>"
  using assms by (auto simp: run_defs fun_eq_iff)

section \<open>The LRU law\<close>

text \<open>
  Claim C1, as the code has it. Run any sequence of \<^verbatim>\<open>load_sound\<close> calls on a player built
  with capacity \<open>n \<ge> 1\<close>. The cache then holds at most \<open>n\<close> entries (in the dictionary and
  in the key list). If moreover every call made on a cached path found its file still
  existing, then whenever the next call removes an entry \<open>q\<close> from the cache, every other
  cached entry \<open>r\<close> was requested (loaded or hit) later than \<open>q\<close>. In particular, with
  capacity 2 and three readable files, loading a.wav, b.wav, c.wav leaves exactly b.wav
  and c.wav cached.
\<close>

theorem lru_law:
  assumes n: "1 \<le> n"
  shows "int (card (dom (cache (run_loads (TinyPlayer n) cs)))) \<le> n \<and>
         int (length (cache_keys (run_loads (TinyPlayer n) cs))) \<le> n \<and>
         (cached_files_exist (TinyPlayer n) cs \<longrightarrow>
            (\<forall>c q r. q \<in> dom (cache (run_loads (TinyPlayer n) cs)) \<and>
                     q \<notin> dom (cache (run_loads (TinyPlayer n) (cs @ [c]))) \<and>
                     r \<in> dom (cache (run_loads (TinyPlayer n) cs)) \<and> r \<noteq> q \<longrightarrow>
                     last_request cs q < last_request cs r)) \<and>
         (\<forall>fs. readable (fs ''a.wav'') \<and> readable (fs ''b.wav'') \<and> readable (fs ''c.wav'') \<longrightarrow>
            dom (cache (run_loads (TinyPlayer 2)
              [(fs, ''a.wav''), (fs, ''b.wav''), (fs, ''c.wav'')])) = {''b.wav'', ''c.wav''})"
proof -
  let ?s = "run_loads (TinyPlayer n) cs"
  have "cache_inv (TinyPlayer n)" "1 \<le> cache_size (TinyPlayer n)"
    "int (length (cache_keys (TinyPlayer n))) \<le> cache_size (TinyPlayer n)"
    using n by (simp_all add: cache_inv_def TinyPlayer_def)
  from capacity_run[OF this, of cs]
  have inv: "cache_inv ?s" and len: "int (length (cache_keys ?s)) \<le> n"
    by (simp_all add: TinyPlayer_def)
  have "card (dom (cache ?s)) = length (cache_keys ?s)"
    using inv by (simp add: cache_inv_def distinct_card)
  with len have size: "int (card (dom (cache ?s))) \<le> n" "int (length (cache_keys ?s)) \<le> n"
    by simp_all
  have lru: "last_request cs q < last_request cs r"
    if "cached_files_exist (TinyPlayer n) cs"
       "q \<in> dom (cache ?s)" "q \<notin> dom (cache (run_loads (TinyPlayer n) (cs @ [c])))"
       "r \<in> dom (cache ?s)" "r \<noteq> q" for c q r
    using evicted_is_oldest[OF lru_inv_run[OF n that(1)], of q c r] that(2-)
    by (simp add: run_loads_snoc)
  have abc: "dom (cache (run_loads (TinyPlayer 2)
      [(fs, ''a.wav''), (fs, ''b.wav''), (fs, ''c.wav'')])) = {''b.wav'', ''c.wav''}"
    if "readable (fs ''a.wav'')" "readable (fs ''b.wav'')" "readable (fs ''c.wav'')" for fs
  proof -
    from that obtain da db dc where
      "fs ''a.wav'' = Wave da" "fs ''b.wav'' = Wave db" "fs ''c.wav'' = Wave dc"
      by (auto dest!: readable_Wave)
    then show ?thesis by (subst scenario_abc[of fs da db dc]) auto
  qed
  have "cached_files_exist (TinyPlayer n) cs \<longrightarrow>
          (\<forall>c q r. q \<in> dom (cache ?s) \<and>
                  q \<notin> dom (cache (run_loads (TinyPlayer n) (cs @ [c]))) \<and>
                  r \<in> dom (cache ?s) \<and> r \<noteq> q \<longrightarrow>
                  last_request cs q < last_request cs r)"
    using lru by blast
  moreover have "\<forall>fs. readable (fs ''a.wav'') \<and> readable (fs ''b.wav'') \<and>
      readable (fs ''c.wav'') \<longrightarrow>
      dom (cache (run_loads (TinyPlayer 2)
        [(fs, ''a.wav''), (fs, ''b.wav''), (fs, ''c.wav'')])) = {''b.wav'', ''c.wav''}"
    using abc by simp
  ultimately show ?thesis using size by simp
qed

text \<open>
  Claim C1 as stated fails. With capacity 2, a.wav and b.wav are loaded; a.wav is then
  requested again while cached, but its file is gone, so the call returns \<^verbatim>\<open>False\<close> without
  moving it; the next load, of c.wav, evicts a.wav and keeps b.wav, although a.wav was
  requested after b.wav.
\<close>

theorem lru_stale_file_counterexample:
  "''a.wav'' \<in> dom (cache (run_loads (TinyPlayer 2)
     [(demo_fs, ''a.wav''), (demo_fs, ''b.wav''), (empty_fs, ''a.wav'')])) \<and>
   ''b.wav'' \<in> dom (cache (run_loads (TinyPlayer 2)
     [(demo_fs, ''a.wav''), (demo_fs, ''b.wav''), (empty_fs, ''a.wav'')])) \<and>
   ''a.wav'' \<notin> dom (cache (run_loads (TinyPlayer 2)
     ([(demo_fs, ''a.wav''), (demo_fs, ''b.wav''), (empty_fs, ''a.wav'')] @
      [(demo_fs, ''c.wav'')]))) \<and>
   ''b.wav'' \<in> dom (cache (run_loads (TinyPlayer 2)
     ([(demo_fs, ''a.wav''), (demo_fs, ''b.wav''), (empty_fs, ''a.wav'')] @
      [(demo_fs, ''c.wav'')]))) \<and>
   last_request [(demo_fs, ''a.wav''), (demo_fs, ''b.wav''), (empty_fs, ''a.wav'')] ''b.wav'' = 2 \<and>
   last_request [(demo_fs, ''a.wav''), (demo_fs, ''b.wav''), (empty_fs, ''a.wav'')] ''a.wav'' = 3"
  by (simp add: run_defs demo_fs_def empty_fs_def last_request_def)

text \<open>
  The law at work on a hit: a.wav, b.wav, then a.wav again with its file present; loading
  c.wav evicts b.wav, requested at position 2, and keeps a.wav, requested at position 3.
\<close>

theorem lru_law_witness:
  "(1::int) \<le> 2 \<and>
   cached_files_exist (TinyPlayer 2)
     [(demo_fs, ''a.wav''), (demo_fs, ''b.wav''), (demo_fs, ''a.wav'')] \<and>
   ''b.wav'' \<in> dom (cache (run_loads (TinyPlayer 2)
     [(demo_fs, ''a.wav''), (demo_fs, ''b.wav''), (demo_fs, ''a.wav'')])) \<and>
   ''b.wav'' \<notin> dom (cache (run_loads (TinyPlayer 2)
     ([(demo_fs, ''a.wav''), (demo_fs, ''b.wav''), (demo_fs, ''a.wav'')] @
      [(demo_fs, ''c.wav'')]))) \<and>
   ''a.wav'' \<in> dom (cache (run_loads (TinyPlayer 2)
     [(demo_fs, ''a.wav''), (demo_fs, ''b.wav''), (demo_fs, ''a.wav'')])) \<and>
   ''a.wav'' \<noteq> ''b.wav'' \<and>
   last_request [(demo_fs, ''a.wav''), (demo_fs, ''b.wav''), (demo_fs, ''a.wav'')] ''b.wav''
     < last_request [(demo_fs, ''a.wav''), (demo_fs, ''b.wav''), (demo_fs, ''a.wav'')] ''a.wav'' \<and>
   last_request [(demo_fs, ''a.wav''), (demo_fs, ''b.wav''), (demo_fs, ''a.wav'')] ''b.wav'' = 2 \<and>
   last_request [(demo_fs, ''a.wav''), (demo_fs, ''b.wav''), (demo_fs, ''a.wav'')] ''a.wav'' = 3 \<and>
   int (card (dom (cache (run_loads (TinyPlayer 2)
     [(demo_fs, ''a.wav''), (demo_fs, ''b.wav''), (demo_fs, ''a.wav'')])))) \<le> 2 \<and>
   readable (demo_fs ''a.wav'') \<and> readable (demo_fs ''b.wav'') \<and> readable (demo_fs ''c.wav'') \<and>
   dom (cache (run_loads (TinyPlayer 2)
     [(demo_fs, ''a.wav''), (demo_fs, ''b.wav''), (demo_fs, ''c.wav'')])) = {''b.wav'', ''c.wav''}"
proof -
  let ?cs = "[(demo_fs, ''a.wav''), (demo_fs, ''b.wav''), (demo_fs, ''a.wav'')]"
  have n: "(1::int) \<le> 2" by simp
  have ex: "cached_files_exist (TinyPlayer 2) ?cs"
    by (simp add: run_defs demo_fs_def)
  have b: "''b.wav'' \<in> dom (cache (run_loads (TinyPlayer 2) ?cs))"
    by (simp add: run_defs demo_fs_def)
  have a: "''a.wav'' \<in> dom (cache (run_loads (TinyPlayer 2) ?cs))"
    by (simp add: run_defs demo_fs_def)
  have c: "''b.wav'' \<notin> dom (cache (run_loads (TinyPlayer 2) (?cs @ [(demo_fs, ''c.wav'')])))"
    by (simp add: run_defs demo_fs_def)
  have d: "''a.wav'' \<noteq> ''b.wav''" by simp
  have pb: "last_request ?cs ''b.wav'' = 2" by (simp add: last_request_def)
  have pa: "last_request ?cs ''a.wav'' = 3" by (simp add: last_request_def)
  have ra: "readable (demo_fs ''a.wav'')" by (simp add: demo_fs_def)
  have rb: "readable (demo_fs ''b.wav'')" by (simp add: demo_fs_def)
  have rc: "readable (demo_fs ''c.wav'')" by (simp add: demo_fs_def)
  note law = lru_law[OF n, of ?cs]
  have size: "int (card (dom (cache (run_loads (TinyPlayer 2) ?cs)))) \<le> 2"
    by (rule law[THEN conjunct1])
  have lt: "last_request ?cs ''b.wav'' < last_request ?cs ''a.wav''"
    by (rule law[THEN conjunct2, THEN conjunct2, THEN conjunct1, rule_format,
          of "''b.wav''" "(demo_fs, ''c.wav'')" "''a.wav''"]) (intro conjI ex b c a d)+
  have abc: "dom (cache (run_loads (TinyPlayer 2)
     [(demo_fs, ''a.wav''), (demo_fs, ''b.wav''), (demo_fs, ''c.wav'')])) = {''b.wav'', ''c.wav''}"
    by (rule law[THEN conjunct2, THEN conjunct2, THEN conjunct2, rule_format, of demo_fs])
      (intro conjI ra rb rc)
  show ?thesis by (intro conjI n ex a b c d lt pa pb size ra rb rc abc)
qed

section \<open>Failure paths of load_sound and play\<close>

lemma play_state:
  "state_of (play fs dev p s) =
     (if cache s p \<noteq> None then s else state_of (load_sound fs p s))"
  by (auto simp: play_def state_of_def split: prod.splits sum.splits bool.splits option.splits)

lemma load_sound_miss_result:
  "cache s p = None \<Longrightarrow> load_sound fs p s = (r, s', evs) \<Longrightarrow>
   r = Inr False \<or> (r = Inr True \<and> cache s' p \<noteq> None)"
  by (auto simp: load_sound_def Let_def split: if_splits file_state.splits)

lemma play_result: "result_of (play fs dev p s) = Inr ()"
proof (cases "cache s p")
  case (Some e)
  then show ?thesis by (simp add: play_def result_of_def)
next
  case None
  obtain r s' evs where l: "load_sound fs p s = (r, s', evs)" by (cases "load_sound fs p s")
  from load_sound_miss_result[OF None l] None l show ?thesis
    by (auto simp: play_def result_of_def)
qed

lemma load_sound_unreadable:
  "cache s p = None \<Longrightarrow> \<not> readable (fs p) \<Longrightarrow>
   load_sound fs p s =
     (Inr False, s,
      if fs p = Absent then [FsExists p, PrintFileNotFound p]
      else [FsExists p, WaveOpen p, PrintLoadError WaveError])"
  by (cases "fs p") (simp_all add: load_sound_def)

text \<open>
  Claim C6. When the path is not cached and the file is missing, unreadable or malformed
  (every state of the file other than a readable wave file), \<^verbatim>\<open>load_sound\<close> returns
  \<^verbatim>\<open>False\<close>, raises nothing, and leaves the player (dictionary, key list and capacity)
  exactly as it was.
\<close>
theorem load_failure_leaves_cache:
  assumes "cache s p = None" and "\<not> readable (fs p)"
  shows "result_of (load_sound fs p s) = Inr False \<and> state_of (load_sound fs p s) = s"
  using load_sound_unreadable[where s = s and p = p and fs = fs] assms
  by (simp add: result_of_def state_of_def)

theorem load_failure_leaves_cache_witness:
  "cache (state_of (load_sound demo_fs ''a.wav'' (TinyPlayer 1))) ''bad.wav'' = None \<and>
   \<not> readable (demo_fs ''bad.wav'') \<and>
   result_of (load_sound demo_fs ''bad.wav''
     (state_of (load_sound demo_fs ''a.wav'' (TinyPlayer 1)))) = Inr False \<and>
   state_of (load_sound demo_fs ''bad.wav''
     (state_of (load_sound demo_fs ''a.wav'' (TinyPlayer 1)))) =
     state_of (load_sound demo_fs ''a.wav'' (TinyPlayer 1))"
proof -
  let ?s = "state_of (load_sound demo_fs ''a.wav'' (TinyPlayer 1))"
  have h1: "cache ?s ''bad.wav'' = None" by (simp add: run_defs demo_fs_def)
  have h2: "\<not> readable (demo_fs ''bad.wav'')" by (simp add: demo_fs_def)
  from load_failure_leaves_cache[where s = ?s and p = "''bad.wav''" and fs = demo_fs, OF h1 h2]
  show ?thesis using h1 h2 by (intro conjI) simp_all
qed

text \<open>
  Claim C7. \<^verbatim>\<open>play\<close> never raises, whatever the device does and whatever the state of the
  player; and when the path is not cached and its load fails, \<^verbatim>\<open>play\<close> leaves the player
  unchanged and makes no call on the audio device.
\<close>
theorem play_silent_on_failed_load:
  "result_of (play fs dev p s) = Inr () \<and>
   (cache s p = None \<and> \<not> readable (fs p) \<longrightarrow>
      state_of (play fs dev p s) = s \<and> filter is_device (events_of (play fs dev p s)) = [])"
proof -
  have "state_of (play fs dev p s) = s \<and> filter is_device (events_of (play fs dev p s)) = []"
    if "cache s p = None" "\<not> readable (fs p)"
    using load_sound_unreadable[where s = s and p = p and fs = fs] that
    by (simp add: play_def state_of_def events_of_def)
  with play_result[of fs dev p s] show ?thesis by blast
qed

theorem play_silent_on_failed_load_witness:
  "cache (TinyPlayer 1) ''missing.wav'' = None \<and>
   \<not> readable (demo_fs ''missing.wav'') \<and>
   result_of (play demo_fs NoFault ''missing.wav'' (TinyPlayer 1)) = Inr () \<and>
   state_of (play demo_fs NoFault ''missing.wav'' (TinyPlayer 1)) = TinyPlayer 1 \<and>
   filter is_device (events_of (play demo_fs NoFault ''missing.wav'' (TinyPlayer 1))) = []"
proof -
  have h1: "cache (TinyPlayer 1) ''missing.wav'' = None" by (simp add: TinyPlayer_def)
  have h2: "\<not> readable (demo_fs ''missing.wav'')" by (simp add: demo_fs_def)
  note t = play_silent_on_failed_load[where s = "TinyPlayer 1" and p = "''missing.wav''"
      and fs = demo_fs and dev = NoFault]
  from t[THEN conjunct1] t[THEN conjunct2, rule_format, OF conjI[OF h1 h2]] h1 h2
  show ?thesis by (intro conjI) simp_all
qed

section \<open>Cleanup and the cache invariant\<close>

text \<open>
  Claim C9. \<^verbatim>\<open>cleanup\<close> returns without raising and leaves the cache empty; a second
  \<^verbatim>\<open>cleanup\<close> does the same and leaves the player as the first one left it.
\<close>
theorem cleanup_idempotent:
  "result_of (cleanup r1 s) = Inr () \<and>
   cache (state_of (cleanup r1 s)) = Map.empty \<and>
   cache_keys (state_of (cleanup r1 s)) = [] \<and>
   result_of (cleanup r2 (state_of (cleanup r1 s))) = Inr () \<and>
   cache (state_of (cleanup r2 (state_of (cleanup r1 s)))) = Map.empty \<and>
   cache_keys (state_of (cleanup r2 (state_of (cleanup r1 s)))) = [] \<and>
   state_of (cleanup r2 (state_of (cleanup r1 s))) = state_of (cleanup r1 s)"
  by (simp add: cleanup_def result_of_def state_of_def)

text \<open>
  Claim C10. A new player satisfies the invariant (the keys of the dictionary are the
  elements of the key list, and the key list has no duplicates), and \<^verbatim>\<open>load_sound\<close>,
  \<^verbatim>\<open>play\<close> and \<^verbatim>\<open>cleanup\<close> preserve it.
\<close>
theorem cache_inv_preserved:
  "cache_inv (TinyPlayer n) \<and>
   (cache_inv s \<longrightarrow>
      cache_inv (state_of (load_sound fs p s)) \<and>
      cache_inv (state_of (play fs dev p s)) \<and>
      cache_inv (state_of (cleanup b s)))"
proof -
  have "cache_inv (TinyPlayer n)" by (simp add: cache_inv_def TinyPlayer_def)
  moreover have "cache_inv (state_of (cleanup b s))"
    by (simp add: cache_inv_def cleanup_def state_of_def)
  moreover have "cache_inv (state_of (play fs dev p s))" if "cache_inv s"
    using that load_sound_inv[OF that, of fs p] by (simp add: play_state)
  ultimately show ?thesis using load_sound_inv[of s fs p] by blast
qed

theorem cache_inv_preserved_witness:
  "cache_inv (run_loads (TinyPlayer 2) [(demo_fs, ''a.wav''), (demo_fs, ''b.wav'')]) \<and>
   cache_inv (state_of (load_sound demo_fs ''c.wav''
     (run_loads (TinyPlayer 2) [(demo_fs, ''a.wav''), (demo_fs, ''b.wav'')]))) \<and>
   cache_inv (state_of (play demo_fs NoFault ''c.wav''
     (run_loads (TinyPlayer 2) [(demo_fs, ''a.wav''), (demo_fs, ''b.wav'')]))) \<and>
   cache_inv (state_of (cleanup False
     (run_loads (TinyPlayer 2) [(demo_fs, ''a.wav''), (demo_fs, ''b.wav'')])))"
proof -
  let ?s = "run_loads (TinyPlayer 2) [(demo_fs, ''a.wav''), (demo_fs, ''b.wav'')]"
  have h: "cache_inv ?s" by (auto simp: cache_inv_def run_defs demo_fs_def)
  note t = cache_inv_preserved[where s = ?s and fs = demo_fs and p = "''c.wav''"
      and dev = NoFault and b = False and n = 2, THEN conjunct2, rule_format, OF h]
  from h t show ?thesis by (intro conjI) simp_all
qed

section \<open>The refresh scenario\<close>

lemma scenario_aba:
  assumes "fs ''a.wav'' = Wave da" "fs ''b.wav'' = Wave db"
  shows "run_loads (TinyPlayer 2) [(fs, ''a.wav''), (fs, ''b.wav'')] =
    \<lparr>cache = [''a.wav'' \<mapsto> da, ''b.wav'' \<mapsto> db], cache_keys = [''a.wav'', ''b.wav''],
     cache_size = 2\<rparr>"
    and "load_sound fs ''a.wav''
      \<lparr>cache = [''a.wav'' \<mapsto> da, ''b.wav'' \<mapsto> db], cache_keys = [''a.wav'', ''b.wav''],
       cache_size = 2\<rparr> =
     (Inr True,
      \<lparr>cache = [''a.wav'' \<mapsto> da, ''b.wav'' \<mapsto> db], cache_keys = [''b.wav'', ''a.wav''],
       cache_size = 2\<rparr>,
      [FsExists ''a.wav'', KeysRemove ''a.wav'', KeysAppend ''a.wav''])"
  using assms by (auto simp: run_defs fun_eq_iff)

lemma scenario_abac:
  assumes "fs ''c.wav'' = Wave dc"
  shows "load_sound fs ''c.wav''
      \<lparr>cache = [''a.wav'' \<mapsto> da, ''b.wav'' \<mapsto> db], cache_keys = [''b.wav'', ''a.wav''],
       cache_size = 2\<rparr> =
     (Inr True,
      \<lparr>cache = [''a.wav'' \<mapsto> da, ''c.wav'' \<mapsto> dc], cache_keys = [''a.wav'', ''c.wav''],
       cache_size = 2\<rparr>,
      [FsExists ''c.wav'', WaveOpen ''c.wav'', LockAcquire, KeysPop ''b.wav'',
       CacheDel ''b.wav'', CacheSet ''c.wav'', KeysAppend ''c.wav'', LockRelease])"
  using assms by (auto simp: run_defs fun_eq_iff)

text \<open>
  Claim C8. With capacity 2 and three readable files, load a.wav, load b.wav, load a.wav
  again (a hit that only moves a.wav to the end of the key list), load c.wav: the last
  call evicts b.wav, and the cache holds exactly a.wav and c.wav.
\<close>
theorem lru_refresh_scenario:
  assumes "readable (fs ''a.wav'')" "readable (fs ''b.wav'')" "readable (fs ''c.wav'')"
  shows
    "cache_keys (run_loads (TinyPlayer 2) [(fs, ''a.wav''), (fs, ''b.wav'')]) =
       [''a.wav'', ''b.wav''] \<and>
     load_sound fs ''a.wav'' (run_loads (TinyPlayer 2) [(fs, ''a.wav''), (fs, ''b.wav'')]) =
       (Inr True,
        run_loads (TinyPlayer 2) [(fs, ''a.wav''), (fs, ''b.wav''), (fs, ''a.wav'')],
        [FsExists ''a.wav'', KeysRemove ''a.wav'', KeysAppend ''a.wav'']) \<and>
     cache_keys (run_loads (TinyPlayer 2) [(fs, ''a.wav''), (fs, ''b.wav''), (fs, ''a.wav'')]) =
       [''b.wav'', ''a.wav''] \<and>
     result_of (load_sound fs ''c.wav''
       (run_loads (TinyPlayer 2) [(fs, ''a.wav''), (fs, ''b.wav''), (fs, ''a.wav'')])) =
       Inr True \<and>
     filter is_mutation (events_of (load_sound fs ''c.wav''
       (run_loads (TinyPlayer 2) [(fs, ''a.wav''), (fs, ''b.wav''), (fs, ''a.wav'')]))) =
       [KeysPop ''b.wav'', CacheDel ''b.wav'', CacheSet ''c.wav'', KeysAppend ''c.wav''] \<and>
     dom (cache (run_loads (TinyPlayer 2)
       [(fs, ''a.wav''), (fs, ''b.wav''), (fs, ''a.wav''), (fs, ''c.wav'')])) =
       {''a.wav'', ''c.wav''} \<and>
     cache_keys (run_loads (TinyPlayer 2)
       [(fs, ''a.wav''), (fs, ''b.wav''), (fs, ''a.wav''), (fs, ''c.wav'')]) =
       [''a.wav'', ''c.wav'']"
proof -
  from assms obtain da db dc where
    f: "fs ''a.wav'' = Wave da" "fs ''b.wav'' = Wave db" "fs ''c.wav'' = Wave dc"
    by (auto dest!: readable_Wave)
  let ?s2 = "\<lparr>cache = [''a.wav'' \<mapsto> da, ''b.wav'' \<mapsto> db],
      cache_keys = [''a.wav'', ''b.wav''], cache_size = 2\<rparr>"
  let ?s3 = "\<lparr>cache = [''a.wav'' \<mapsto> da, ''b.wav'' \<mapsto> db],
      cache_keys = [''b.wav'', ''a.wav''], cache_size = 2\<rparr>"
  let ?s4 = "\<lparr>cache = [''a.wav'' \<mapsto> da, ''c.wav'' \<mapsto> dc],
      cache_keys = [''a.wav'', ''c.wav''], cache_size = 2\<rparr>"
  have s2: "run_loads (TinyPlayer 2) [(fs, ''a.wav''), (fs, ''b.wav'')] = ?s2"
    using f(1,2) by (rule scenario_aba(1)[where fs = fs])
  have l3: "load_sound fs ''a.wav'' ?s2 =
      (Inr True, ?s3, [FsExists ''a.wav'', KeysRemove ''a.wav'', KeysAppend ''a.wav''])"
    using f(1,2) by (rule scenario_aba(2)[where fs = fs])
  have s3: "run_loads (TinyPlayer 2) [(fs, ''a.wav''), (fs, ''b.wav''), (fs, ''a.wav'')] = ?s3"
    using run_loads_snoc[of "TinyPlayer 2" "[(fs, ''a.wav''), (fs, ''b.wav'')]" "(fs, ''a.wav'')"]
    by (simp add: s2 l3 load_step_def state_of_def)
  have l4: "load_sound fs ''c.wav'' ?s3 =
      (Inr True, ?s4,
       [FsExists ''c.wav'', WaveOpen ''c.wav'', LockAcquire, KeysPop ''b.wav'',
        CacheDel ''b.wav'', CacheSet ''c.wav'', KeysAppend ''c.wav'', LockRelease])"
    using f(3) by (rule scenario_abac[where fs = fs and dc = dc])
  have s4: "run_loads (TinyPlayer 2)
      [(fs, ''a.wav''), (fs, ''b.wav''), (fs, ''a.wav''), (fs, ''c.wav'')] = ?s4"
    using run_loads_snoc[of "TinyPlayer 2"
        "[(fs, ''a.wav''), (fs, ''b.wav''), (fs, ''a.wav'')]" "(fs, ''c.wav'')"]
    by (simp add: s3 l4 load_step_def state_of_def)
  show ?thesis
    unfolding s2 s3 s4 l3 l4 by (auto simp: result_of_def events_of_def)
qed

theorem lru_refresh_scenario_witness:
  "readable (demo_fs ''a.wav'') \<and> readable (demo_fs ''b.wav'') \<and> readable (demo_fs ''c.wav'') \<and>
   dom (cache (run_loads (TinyPlayer 2)
     [(demo_fs, ''a.wav''), (demo_fs, ''b.wav''), (demo_fs, ''a.wav''), (demo_fs, ''c.wav'')])) =
     {''a.wav'', ''c.wav''} \<and>
   cache_keys (run_loads (TinyPlayer 2)
     [(demo_fs, ''a.wav''), (demo_fs, ''b.wav''), (demo_fs, ''a.wav''), (demo_fs, ''c.wav'')]) =
     [''a.wav'', ''c.wav'']"
proof -
  have ra: "readable (demo_fs ''a.wav'')" by (simp add: demo_fs_def)
  have rb: "readable (demo_fs ''b.wav'')" by (simp add: demo_fs_def)
  have rc: "readable (demo_fs ''c.wav'')" by (simp add: demo_fs_def)
  note t = lru_refresh_scenario[OF ra rb rc]
  from ra rb rc t show ?thesis by (intro conjI) simp_all
qed

section \<open>The cache hit\<close>

lemma file_reads_of_load:
  "filter is_file_read (events_of (load_sound fs p s)) =
     (if fs p = Absent \<or> cache s p \<noteq> None then [] else [WaveOpen p])"
  by (auto simp: load_sound_def events_of_def Let_def split: file_state.splits)

lemma load_sound_miss_readable:
  assumes "cache_inv s" "cache s p = None" "readable (fs p)"
  shows "result_of (load_sound fs p s) = Inr True \<and>
         cache (state_of (load_sound fs p s)) p \<noteq> None \<and>
         last (cache_keys (state_of (load_sound fs p s))) = p"
  using assms(1)
proof (cases rule: load_sound_cases[of s fs p])
  case fail
  from assms(3) obtain d where "fs p = Wave d" by (auto dest: readable_Wave)
  then have "load_sound fs p s \<noteq> (Inr False, s', evs)" for s' evs
    using assms(1,2)
    by (cases "cache_keys s")
       (auto simp: load_sound_def Let_def cache_inv_def dest!: sym[of "dom (cache s)"])
  with fail show ?thesis by (cases "load_sound fs p s") (auto simp: result_of_def)
next
  case hit with assms show ?thesis by simp
next
  case (insert d) then show ?thesis by simp
next
  case (evict d k ks) then show ?thesis by simp
qed

text \<open>
  Claim C2, as the code has it. The existence check of line 20 comes before the cache
  lookup, so the hit needs the file to exist still. For a player satisfying the invariant
  and a path whose file exists: if the path is cached, \<^verbatim>\<open>load_sound\<close> returns \<^verbatim>\<open>True\<close>, moves
  the path to the end of the key list (the most recently used position), leaves the
  dictionary as it is and opens no file; and if the path is not cached and readable,
  loading it twice in a row returns \<^verbatim>\<open>True\<close> both times and opens the file only in the
  first call.
\<close>

theorem load_sound_hit:
  assumes inv: "cache_inv s" and ex: "fs p \<noteq> Absent" and ex': "fs' p \<noteq> Absent"
  shows
    "(cache s p \<noteq> None \<longrightarrow>
        result_of (load_sound fs p s) = Inr True \<and>
        cache_keys (state_of (load_sound fs p s)) = remove1 p (cache_keys s) @ [p] \<and>
        last (cache_keys (state_of (load_sound fs p s))) = p \<and>
        cache (state_of (load_sound fs p s)) = cache s \<and>
        filter is_file_read (events_of (load_sound fs p s)) = []) \<and>
     (cache s p = None \<and> readable (fs p) \<longrightarrow>
        result_of (load_sound fs p s) = Inr True \<and>
        filter is_file_read (events_of (load_sound fs p s)) = [WaveOpen p] \<and>
        result_of (load_sound fs' p (state_of (load_sound fs p s))) = Inr True \<and>
        filter is_file_read (events_of (load_sound fs' p (state_of (load_sound fs p s)))) = [])"
proof (intro conjI impI)
  assume c: "cache s p \<noteq> None"
  note h = load_sound_hit_state[where s = s and p = p and fs = fs, OF inv c ex]
  from h show "result_of (load_sound fs p s) = Inr True" by simp
  from h show "cache_keys (state_of (load_sound fs p s)) = remove1 p (cache_keys s) @ [p]"
    by simp
  from h show "last (cache_keys (state_of (load_sound fs p s))) = p" by simp
  from h show "cache (state_of (load_sound fs p s)) = cache s" by simp
  from c show "filter is_file_read (events_of (load_sound fs p s)) = []"
    by (simp add: file_reads_of_load)
next
  assume a: "cache s p = None \<and> readable (fs p)"
  note m = load_sound_miss_readable[where s = s and p = p and fs = fs,
      OF inv a[THEN conjunct1] a[THEN conjunct2]]
  from m show "result_of (load_sound fs p s) = Inr True" by simp
  from a ex show "filter is_file_read (events_of (load_sound fs p s)) = [WaveOpen p]"
    by (simp add: file_reads_of_load)
  have inv': "cache_inv (state_of (load_sound fs p s))" by (rule load_sound_inv[OF inv])
  from m have c': "cache (state_of (load_sound fs p s)) p \<noteq> None" by simp
  from load_sound_hit_state[where s = "state_of (load_sound fs p s)" and p = p and fs = fs',
      OF inv' c' ex']
  show "result_of (load_sound fs' p (state_of (load_sound fs p s))) = Inr True" by simp
  from c' show "filter is_file_read
      (events_of (load_sound fs' p (state_of (load_sound fs p s)))) = []"
    by (simp add: file_reads_of_load)
qed

text \<open>
  Claim C2 as stated fails: with a.wav cached and its file deleted afterwards,
  \<^verbatim>\<open>load_sound\<close> returns \<^verbatim>\<open>False\<close>.
\<close>

theorem cached_path_deleted_counterexample:
  "cache (state_of (load_sound demo_fs ''a.wav'' (TinyPlayer 1))) ''a.wav'' \<noteq> None \<and>
   result_of (load_sound empty_fs ''a.wav''
     (state_of (load_sound demo_fs ''a.wav'' (TinyPlayer 1)))) = Inr False"
  by (simp add: run_defs demo_fs_def empty_fs_def)

text \<open>The hit on a.wav after loading a.wav and b.wav, and a.wav loaded twice in a row.\<close>

theorem load_sound_hit_witness:
  "cache_inv (run_loads (TinyPlayer 2) [(demo_fs, ''a.wav''), (demo_fs, ''b.wav'')]) \<and>
   demo_fs ''a.wav'' \<noteq> Absent \<and>
   cache (run_loads (TinyPlayer 2) [(demo_fs, ''a.wav''), (demo_fs, ''b.wav'')]) ''a.wav'' \<noteq> None \<and>
   result_of (load_sound demo_fs ''a.wav''
     (run_loads (TinyPlayer 2) [(demo_fs, ''a.wav''), (demo_fs, ''b.wav'')])) = Inr True \<and>
   cache_keys (state_of (load_sound demo_fs ''a.wav''
     (run_loads (TinyPlayer 2) [(demo_fs, ''a.wav''), (demo_fs, ''b.wav'')]))) =
     [''b.wav'', ''a.wav''] \<and>
   cache_inv (TinyPlayer 2) \<and>
   cache (TinyPlayer 2) ''a.wav'' = None \<and>
   readable (demo_fs ''a.wav'') \<and>
   filter is_file_read (events_of (load_sound demo_fs ''a.wav'' (TinyPlayer 2))) =
     [WaveOpen ''a.wav''] \<and>
   result_of (load_sound demo_fs ''a.wav''
     (state_of (load_sound demo_fs ''a.wav'' (TinyPlayer 2)))) = Inr True \<and>
   filter is_file_read (events_of (load_sound demo_fs ''a.wav''
     (state_of (load_sound demo_fs ''a.wav'' (TinyPlayer 2))))) = []"
proof -
  let ?s = "run_loads (TinyPlayer 2) [(demo_fs, ''a.wav''), (demo_fs, ''b.wav'')]"
  have inv: "cache_inv ?s" by (auto simp: cache_inv_def run_defs demo_fs_def)
  have ex: "demo_fs ''a.wav'' \<noteq> Absent" by (simp add: demo_fs_def)
  have c: "cache ?s ''a.wav'' \<noteq> None" by (simp add: run_defs demo_fs_def)
  have keys: "remove1 ''a.wav'' (cache_keys ?s) @ [''a.wav''] = [''b.wav'', ''a.wav'']"
    by (simp add: run_defs demo_fs_def)
  have inv0: "cache_inv (TinyPlayer 2)" by (simp add: cache_inv_def TinyPlayer_def)
  have c0: "cache (TinyPlayer 2) ''a.wav'' = None" by (simp add: TinyPlayer_def)
  have r: "readable (demo_fs ''a.wav'')" by (simp add: demo_fs_def)
  note hit = load_sound_hit[where s = ?s and fs = demo_fs and fs' = demo_fs and p = "''a.wav''",
      OF inv ex ex, THEN conjunct1, rule_format, OF c]
  note twice = load_sound_hit[where s = "TinyPlayer 2" and fs = demo_fs and fs' = demo_fs
      and p = "''a.wav''", OF inv0 ex ex, THEN conjunct2, rule_format, OF conjI[OF c0 r]]
  from hit twice inv ex c inv0 c0 r keys show ?thesis by (intro conjI) simp_all
qed

section \<open>Delivery of a key press to the callbacks\<close>

text \<open>
  Claim C3, as the code has it. Registering C1, C2, C3 on a new listener gives the
  callback list C1, C2, C3, and a key press invokes them in that order, each on the
  world the previous one left. An exception raised by a callback leaves \<^verbatim>\<open>_on_press\<close>:
  the callbacks registered after it are not invoked for that event.
\<close>

theorem on_press_registration_order:
  fixes c1 c2 c3 :: "'w callback" and l :: "'w listener"
  shows
    "callbacks (add_callback (add_callback (add_callback
        (BackgroundKeyboardListener lf) c1) c2) c3) = [c1, c2, c3] \<and>
     (callbacks l = [c1, c2, c3] \<longrightarrow>
       (\<forall>e w1. c1 k ''press'' w = (Inl e, w1) \<longrightarrow>
          fst (on_press l k w) = Inl e \<and> snd (snd (on_press l k w)) = w1) \<and>
       (\<forall>e w1 w2. c1 k ''press'' w = (Inr (), w1) \<and> c2 k ''press'' w1 = (Inl e, w2) \<longrightarrow>
          fst (on_press l k w) = Inl e \<and> snd (snd (on_press l k w)) = w2) \<and>
       (\<forall>r w1 w2 w3. c1 k ''press'' w = (Inr (), w1) \<and> c2 k ''press'' w1 = (Inr (), w2) \<and>
            c3 k ''press'' w2 = (r, w3) \<longrightarrow>
          fst (on_press l k w) = r \<and> snd (snd (on_press l k w)) = w3))"
proof -
  have reg: "callbacks (add_callback (add_callback (add_callback
        (BackgroundKeyboardListener lf) c1) c2) c3) = [c1, c2, c3]"
    by (simp add: add_callback_def BackgroundKeyboardListener_def)
  have run: "(fst (on_press l k w), snd (snd (on_press l k w))) = invoke_all [c1, c2, c3] k ''press'' w"
    if "callbacks l = [c1, c2, c3]"
    using that by (cases "logger l") (simp_all add: on_press_def split: prod.splits)
  have "fst (on_press l k w) = Inl e \<and> snd (snd (on_press l k w)) = w1"
    if "callbacks l = [c1, c2, c3]" "c1 k ''press'' w = (Inl e, w1)" for e w1
    using run[OF that(1)] that(2) by simp
  moreover have "fst (on_press l k w) = Inl e \<and> snd (snd (on_press l k w)) = w2"
    if "callbacks l = [c1, c2, c3]" "c1 k ''press'' w = (Inr (), w1)"
       "c2 k ''press'' w1 = (Inl e, w2)" for e w1 w2
    using run[OF that(1)] that(2,3) by simp
  moreover have "fst (on_press l k w) = r \<and> snd (snd (on_press l k w)) = w3"
    if "callbacks l = [c1, c2, c3]" "c1 k ''press'' w = (Inr (), w1)"
       "c2 k ''press'' w1 = (Inr (), w2)" "c3 k ''press'' w2 = (r, w3)" for r w1 w2 w3
    using run[OF that(1)] that(2,3,4) by (cases r) simp_all
  ultimately show ?thesis using reg by blast
qed

text \<open>
  Claim C3 as stated fails: when C1 raises, the exception propagates and neither C2 nor
  C3 has run.
\<close>

theorem callback_exception_counterexample:
  "callbacks (add_callback (add_callback (add_callback
      (BackgroundKeyboardListener None) (note_callback ''C1'' True))
      (note_callback ''C2'' False)) (note_callback ''C3'' False)) =
     [note_callback ''C1'' True, note_callback ''C2'' False, note_callback ''C3'' False] \<and>
   fst (on_press (add_callback (add_callback (add_callback
      (BackgroundKeyboardListener None) (note_callback ''C1'' True))
      (note_callback ''C2'' False)) (note_callback ''C3'' False))
      (KeyCode (Some ''x'')) []) = Inl (CallbackError ''C1'') \<and>
   snd (snd (on_press (add_callback (add_callback (add_callback
      (BackgroundKeyboardListener None) (note_callback ''C1'' True))
      (note_callback ''C2'' False)) (note_callback ''C3'' False))
      (KeyCode (Some ''x'')) [])) = [''C1'']"
  by (simp add: add_callback_def BackgroundKeyboardListener_def on_press_def note_callback_def)

text \<open>
  Three runs with recording callbacks: none raises (with logging enabled), C2 raises,
  C1 raises.
\<close>

theorem on_press_registration_order_witness:
  "callbacks (add_callback (add_callback (add_callback
      (BackgroundKeyboardListener (Some ''keyboard_log.txt'')) (note_callback ''C1'' False))
      (note_callback ''C2'' False)) (note_callback ''C3'' False)) =
     [note_callback ''C1'' False, note_callback ''C2'' False, note_callback ''C3'' False] \<and>
   note_callback ''C1'' False (SpecialKey ''space'') ''press'' [] = (Inr (), [''C1'']) \<and>
   note_callback ''C2'' False (SpecialKey ''space'') ''press'' [''C1''] =
     (Inr (), [''C1'', ''C2'']) \<and>
   note_callback ''C3'' False (SpecialKey ''space'') ''press'' [''C1'', ''C2''] =
     (Inr (), [''C1'', ''C2'', ''C3'']) \<and>
   fst (on_press (add_callback (add_callback (add_callback
      (BackgroundKeyboardListener (Some ''keyboard_log.txt'')) (note_callback ''C1'' False))
      (note_callback ''C2'' False)) (note_callback ''C3'' False))
      (SpecialKey ''space'') []) = Inr () \<and>
   snd (snd (on_press (add_callback (add_callback (add_callback
      (BackgroundKeyboardListener (Some ''keyboard_log.txt'')) (note_callback ''C1'' False))
      (note_callback ''C2'' False)) (note_callback ''C3'' False))
      (SpecialKey ''space'') [])) = [''C1'', ''C2'', ''C3''] \<and>
   callbacks (add_callback (add_callback (add_callback
      (BackgroundKeyboardListener None) (note_callback ''C1'' False))
      (note_callback ''C2'' True)) (note_callback ''C3'' False)) =
     [note_callback ''C1'' False, note_callback ''C2'' True, note_callback ''C3'' False] \<and>
   note_callback ''C2'' True (SpecialKey ''space'') ''press'' [''C1''] =
     (Inl (CallbackError ''C2''), [''C1'', ''C2'']) \<and>
   fst (on_press (add_callback (add_callback (add_callback
      (BackgroundKeyboardListener None) (note_callback ''C1'' False))
      (note_callback ''C2'' True)) (note_callback ''C3'' False))
      (SpecialKey ''space'') []) = Inl (CallbackError ''C2'') \<and>
   snd (snd (on_press (add_callback (add_callback (add_callback
      (BackgroundKeyboardListener None) (note_callback ''C1'' False))
      (note_callback ''C2'' True)) (note_callback ''C3'' False))
      (SpecialKey ''space'') [])) = [''C1'', ''C2''] \<and>
   callbacks (add_callback (add_callback (add_callback
      (BackgroundKeyboardListener None) (note_callback ''C1'' True))
      (note_callback ''C2'' False)) (note_callback ''C3'' False)) =
     [note_callback ''C1'' True, note_callback ''C2'' False, note_callback ''C3'' False] \<and>
   note_callback ''C1'' True (SpecialKey ''space'') ''press'' [] =
     (Inl (CallbackError ''C1''), [''C1'']) \<and>
   fst (on_press (add_callback (add_callback (add_callback
      (BackgroundKeyboardListener None) (note_callback ''C1'' True))
      (note_callback ''C2'' False)) (note_callback ''C3'' False))
      (SpecialKey ''space'') []) = Inl (CallbackError ''C1'') \<and>
   snd (snd (on_press (add_callback (add_callback (add_callback
      (BackgroundKeyboardListener None) (note_callback ''C1'' True))
      (note_callback ''C2'' False)) (note_callback ''C3'' False))
      (SpecialKey ''space'') [])) = [''C1'']"
proof -
  let ?k = "SpecialKey ''space''"
  let ?la = "add_callback (add_callback (add_callback
      (BackgroundKeyboardListener (Some ''keyboard_log.txt'')) (note_callback ''C1'' False))
      (note_callback ''C2'' False)) (note_callback ''C3'' False)"
  let ?lb = "add_callback (add_callback (add_callback
      (BackgroundKeyboardListener None) (note_callback ''C1'' False))
      (note_callback ''C2'' True)) (note_callback ''C3'' False)"
  let ?lc = "add_callback (add_callback (add_callback
      (BackgroundKeyboardListener None) (note_callback ''C1'' True))
      (note_callback ''C2'' False)) (note_callback ''C3'' False)"
  have a1: "note_callback ''C1'' False ?k ''press'' [] = (Inr (), [''C1''])"
    by (simp add: note_callback_def)
  have a2: "note_callback ''C2'' False ?k ''press'' [''C1''] = (Inr (), [''C1'', ''C2''])"
    by (simp add: note_callback_def)
  have a3: "note_callback ''C3'' False ?k ''press'' [''C1'', ''C2''] =
      (Inr (), [''C1'', ''C2'', ''C3''])"
    by (simp add: note_callback_def)
  have b2: "note_callback ''C2'' True ?k ''press'' [''C1''] =
      (Inl (CallbackError ''C2''), [''C1'', ''C2''])"
    by (simp add: note_callback_def)
  have c1: "note_callback ''C1'' True ?k ''press'' [] = (Inl (CallbackError ''C1''), [''C1''])"
    by (simp add: note_callback_def)
  note ta = on_press_registration_order[where lf = "Some ''keyboard_log.txt''"
      and ?c1.0 = "note_callback ''C1'' False" and ?c2.0 = "note_callback ''C2'' False"
      and ?c3.0 = "note_callback ''C3'' False" and l = ?la and k = ?k and w = "[]"]
  note tb = on_press_registration_order[where lf = None
      and ?c1.0 = "note_callback ''C1'' False" and ?c2.0 = "note_callback ''C2'' True"
      and ?c3.0 = "note_callback ''C3'' False" and l = ?lb and k = ?k and w = "[]"]
  note tc = on_press_registration_order[where lf = None
      and ?c1.0 = "note_callback ''C1'' True" and ?c2.0 = "note_callback ''C2'' False"
      and ?c3.0 = "note_callback ''C3'' False" and l = ?lc and k = ?k and w = "[]"]
  note ra = ta[THEN conjunct1] and rb = tb[THEN conjunct1] and rc = tc[THEN conjunct1]
  note oa = ta[THEN conjunct2, rule_format, OF ra, THEN conjunct2, THEN conjunct2,
      rule_format, OF conjI[OF a1 conjI[OF a2 a3]]]
  note ob = tb[THEN conjunct2, rule_format, OF rb, THEN conjunct2, THEN conjunct1,
      rule_format, OF conjI[OF a1 b2]]
  note oc = tc[THEN conjunct2, rule_format, OF rc, THEN conjunct1, rule_format, OF c1]
  show ?thesis
    by (intro conjI ra rb rc a1 a2 a3 b2 c1 oa[THEN conjunct1] oa[THEN conjunct2]
        ob[THEN conjunct1] ob[THEN conjunct2] oc[THEN conjunct1] oc[THEN conjunct2])
qed

section \<open>The entry point\<close>

text \<open>
  Claim C4, as the code has it. If the initial \<^verbatim>\<open>load_sound\<close> fails, the entry point
  prints the failure message and ends the process through \<^verbatim>\<open>exit()\<close>, that is with exit
  status 0, and control never reaches the start of the listener.
\<close>

theorem main_failed_load_exits_zero:
  assumes "result_of (load_sound fs sound_path (TinyPlayer 100)) = Inr False"
  shows "main_entry fs sound_path =
           (Exited 0,
            events_of (load_sound fs sound_path (TinyPlayer 100)) @
              [PrintLine ''Failed to load sound'']) \<and>
         fst (main_entry fs sound_path) \<noteq> Listening"
  using assms
  by (auto simp: main_entry_def result_of_def events_of_def
      split: prod.splits sum.splits bool.splits)

text \<open>
  Claim C4 as stated fails: with the sound file missing, the load fails and the exit
  status is 0.
\<close>

theorem main_failed_load_counterexample:
  "result_of (load_sound empty_fs ''click.wav'' (TinyPlayer 100)) = Inr False \<and>
   fst (main_entry empty_fs ''click.wav'') = Exited 0"
  by (simp add: main_entry_def run_defs empty_fs_def)

text \<open>The same with a damaged sound file.\<close>

theorem main_failed_load_exits_zero_witness:
  "result_of (load_sound demo_fs ''bad.wav'' (TinyPlayer 100)) = Inr False \<and>
   main_entry demo_fs ''bad.wav'' =
     (Exited 0,
      [FsExists ''bad.wav'', WaveOpen ''bad.wav'', PrintLoadError WaveError,
       PrintLine ''Failed to load sound''])"
proof -
  have h: "result_of (load_sound demo_fs ''bad.wav'' (TinyPlayer 100)) = Inr False"
    by (simp add: run_defs demo_fs_def)
  have e: "events_of (load_sound demo_fs ''bad.wav'' (TinyPlayer 100)) =
      [FsExists ''bad.wav'', WaveOpen ''bad.wav'', PrintLoadError WaveError]"
    by (simp add: run_defs demo_fs_def)
  from main_failed_load_exits_zero[where fs = demo_fs and sound_path = "''bad.wav''", OF h]
  show ?thesis using h e by simp
qed

section \<open>The lock\<close>

text \<open>
  On every path that does not hit the cache, \<^verbatim>\<open>load_sound\<close> mutates only between taking
  and releasing the lock, and releases it also when \<^verbatim>\<open>del\<close> raises.
\<close>

lemma miss_path_lock_guarded:
  "cache s p = None \<Longrightarrow> lock_guarded False (events_of (load_sound fs p s))"
  by (auto simp: load_sound_def events_of_def Let_def split: file_state.splits)

text \<open>
  Claim C5 does not hold of the code. The cache hit of \<^verbatim>\<open>load_sound\<close> (lines 27 and 28)
  removes and appends in the key list without taking the lock, and \<^verbatim>\<open>cleanup\<close> (lines
  98 and 99) clears the dictionary and the key list without it; only the insertion
  path of \<^verbatim>\<open>load_sound\<close> is guarded.
\<close>

theorem hit_path_mutates_unlocked:
  "events_of (load_sound demo_fs ''a.wav''
     (state_of (load_sound demo_fs ''a.wav'' (TinyPlayer 2)))) =
     [FsExists ''a.wav'', KeysRemove ''a.wav'', KeysAppend ''a.wav''] \<and>
   \<not> lock_guarded False (events_of (load_sound demo_fs ''a.wav''
     (state_of (load_sound demo_fs ''a.wav'' (TinyPlayer 2))))) \<and>
   events_of (cleanup False (state_of (load_sound demo_fs ''a.wav'' (TinyPlayer 2)))) =
     [CacheClear, KeysClear, PaTerminate False] \<and>
   \<not> lock_guarded False
     (events_of (cleanup False (state_of (load_sound demo_fs ''a.wav'' (TinyPlayer 2))))) \<and>
   lock_guarded False (events_of (load_sound demo_fs ''a.wav'' (TinyPlayer 2)))"
  by (simp add: run_defs demo_fs_def cleanup_def)

end
